theory Spec2Isabelle
  imports Main "HOL-Library.Word" "HOL-Library.AList" "HOL-Library.Code_Target_Nat"
begin

unbundle bit_operations_syntax

section \<open>The bit vector of a permission set\<close>

text \<open>
  Modelled from the spec: the type \<open>bitset.BitSet\<close> of the package
  \<open>github.com/willf/bitset\<close>, which the field \<open>bits\<close> has and which is a dependency, not a
  part of \<open>permissions.go\<close>. The spec calls it a dynamically-sized bit vector, indexed from
  0, that grows on demand when a higher index is set, never shrinks, reads a bit beyond its
  length as 0, and has a length that is its high-water mark and not the count of its set bits.
  It is the list of its bits here, bit \<open>i\<close> at position \<open>i\<close>, the list's length being \<open>Len()\<close>,
  and every operation below is the package's operation of the same name read on that list.
  A \<open>uint\<close> (a bit index, a length, a key of \<open>children\<close>) is modelled by its value, a natural
  number; where the code converts it to \<open>uint64\<close> or \<open>int\<close> the model does so too. Running out
  of memory when a vector grows is not modelled.
\<close>

type_synonym BitSet = "bool list"

definition BitSet_Len :: "BitSet \<Rightarrow> nat" where
  "BitSet_Len b = length b"

text \<open>\<open>Test(i)\<close>: false beyond the length, the bit otherwise.\<close>

definition BitSet_Test :: "BitSet \<Rightarrow> nat \<Rightarrow> bool" where
  "BitSet_Test b i = (if i \<ge> length b then False else b ! i)"

text \<open>\<open>extendSetMaybe(i)\<close>: a vector too short for bit \<open>i\<close> grows to length \<open>i + 1\<close>, the new
  bits zero.\<close>

definition BitSet_extendSetMaybe :: "BitSet \<Rightarrow> nat \<Rightarrow> BitSet" where
  "BitSet_extendSetMaybe b i =
     (if i \<ge> length b then b @ replicate (i + 1 - length b) False else b)"

definition BitSet_Set :: "BitSet \<Rightarrow> nat \<Rightarrow> BitSet" where
  "BitSet_Set b i = (BitSet_extendSetMaybe b i)[i := True]"

text \<open>\<open>NextSet(i)\<close>: the first set bit at or after \<open>i\<close>; \<open>None\<close> is the result \<open>(0, false)\<close>.\<close>

definition BitSet_NextSet :: "BitSet \<Rightarrow> nat \<Rightarrow> nat option" where
  "BitSet_NextSet b i = find (\<lambda>j. b ! j) [i..<length b]"


text \<open>\<open>InPlaceIntersection\<close>: bitwise AND on the common part, the receiver's further bits
  are zeroed, and the receiver grows to the argument's length when that is longer.\<close>

definition BitSet_InPlaceIntersection :: "BitSet \<Rightarrow> BitSet \<Rightarrow> BitSet" where
  "BitSet_InPlaceIntersection b compare =
     map (\<lambda>i. BitSet_Test b i \<and> BitSet_Test compare i) [0..<max (length b) (length compare)]"

text \<open>The loop header
  \<^verbatim>\<open>for i, e := b.NextSet(0); e; i, e = b.NextSet(i + 1)\<close>
  visits these indices, in this order, as long as the body leaves \<open>b\<close> alone.\<close>

function BitSet_NextSet_loop :: "BitSet \<Rightarrow> nat \<Rightarrow> nat list" where
  "BitSet_NextSet_loop b i =
     (case BitSet_NextSet b i of
        None \<Rightarrow> []
      | Some j \<Rightarrow> j # BitSet_NextSet_loop b (j + 1))"
  by pat_completeness auto

lemma BitSet_NextSet_Some:
  assumes "BitSet_NextSet b i = Some j"
  shows "i \<le> j \<and> j < length b \<and> b ! j"
proof -
  from assms have "j \<in> set [i..<length b] \<and> b ! j"
    unfolding BitSet_NextSet_def by (auto simp: find_Some_iff)
  then show ?thesis by auto
qed

termination BitSet_NextSet_loop
  by (relation "measure (\<lambda>(b, i). length b - i)") (auto dest: BitSet_NextSet_Some)

declare BitSet_NextSet_loop.simps [simp del]

section \<open>Permission sets\<close>

text \<open>
  \<^verbatim>\<open>type PermissionSet struct { ID uint64; bits bitset.BitSet; children map[uint]*PermissionSet }\<close>
  The map \<open>children\<close> is \<open>None\<close> when it is \<open>nil\<close> and otherwise
  the list of its entries in the order a \<open>range\<close> over it yields them; a key is looked up with
  \<open>map_of\<close>. Children are owned by their parent (no method shares or aliases one), so a set
  is the tree of its values.
\<close>

datatype PermissionSet =
  PermissionSet (ID: "64 word") (bits: BitSet)
    (children: "(nat \<times> PermissionSet) list option")

text \<open>\<open>new(PermissionSet)\<close>: the zero value.\<close>

definition new_PermissionSet :: PermissionSet where
  "new_PermissionSet = PermissionSet 0 [] None"

text \<open>\<open>child, exists := p.children[index]\<close>; a \<open>nil\<close> map has no entry.\<close>

definition children_lookup :: "PermissionSet \<Rightarrow> nat \<Rightarrow> PermissionSet option" where
  "children_lookup p index = (case children p of None \<Rightarrow> None | Some m \<Rightarrow> map_of m index)"

text \<open>A write through the pointer that \<open>Child\<close> returned: the entry at \<open>index\<close> now holds \<open>c\<close>.\<close>

definition store_child :: "PermissionSet \<Rightarrow> nat \<Rightarrow> PermissionSet \<Rightarrow> PermissionSet" where
  "store_child p index c =
     PermissionSet (ID p) (bits p)
       (Some (AList.update index c (case children p of None \<Rightarrow> [] | Some m \<Rightarrow> m)))"

definition Has :: "PermissionSet \<Rightarrow> nat \<Rightarrow> bool" where
  "Has p index = BitSet_Test (bits p) index"

definition Len :: "PermissionSet \<Rightarrow> nat" where
  "Len p = BitSet_Len (bits p)"

definition Set :: "PermissionSet \<Rightarrow> nat list \<Rightarrow> PermissionSet" where
  "Set p indices =
     PermissionSet (ID p) (fold (\<lambda>i b. BitSet_Set b i) indices (bits p)) (children p)"

text \<open>\<open>Child(index)\<close> returns the child and leaves the receiver with a map that is no longer
  \<open>nil\<close> and holds the child: the result is the pair of the child and the receiver afterwards.\<close>

definition Child :: "PermissionSet \<Rightarrow> nat \<Rightarrow> PermissionSet \<times> PermissionSet" where
  "Child p index =
     (let m = (case children p of None \<Rightarrow> [] | Some m \<Rightarrow> m) in
      case map_of m index of
        Some child \<Rightarrow> (child, PermissionSet (ID p) (bits p) (Some m))
      | None \<Rightarrow>
          (new_PermissionSet,
           PermissionSet (ID p) (bits p) (Some (m @ [(index, new_PermissionSet)]))))"

subsection \<open>Walk\<close>

text \<open>The loop of \<open>Walk\<close>; \<open>p\<close> is the receiver, whose map the loop tests for \<open>nil\<close> at every
  level, and \<open>s\<close> the level reached (the variable \<open>set\<close> of the source).\<close>

fun Walk_loop :: "PermissionSet \<Rightarrow> PermissionSet \<Rightarrow> nat list \<Rightarrow> bool" where
  "Walk_loop p s [] = True"
| "Walk_loop p s (i # indices) =
     (if BitSet_Test (bits s) i then
        (if children p = None then True
         else (case children_lookup s i of
                 Some next \<Rightarrow> Walk_loop p next indices
               | None \<Rightarrow> True))
      else False)"

definition Walk :: "PermissionSet \<Rightarrow> nat list \<Rightarrow> bool" where
  "Walk p indices = Walk_loop p p indices"

subsection \<open>Union and intersection\<close>

lemma children_lookup_size:
  "children_lookup other k = Some child \<Longrightarrow> size child < size other"
proof (cases other)
  case (PermissionSet x1 x2 x3)
  assume "children_lookup other k = Some child"
  with PermissionSet obtain m where m: "x3 = Some m" "map_of m k = Some child"
    by (auto simp: children_lookup_def split: option.splits)
  then have "(k, child) \<in> set m" by (simp add: map_of_SomeD)
  then have "size child < size_list (size_prod (\<lambda>x. 0) size) m"
    by (rule size_list_estimation) simp
  with PermissionSet m show ?thesis by simp
qed







subsection \<open>HasMultiple\<close>

text \<open>The body of the inner loop of \<open>HasMultiple\<close> for one key \<open>k\<close> and its slice \<open>v\<close>: the
  slice \<open>values\<close> it stores under \<open>k\<close>, and the receiver afterwards. Every index written lies
  inside \<open>values\<close>, whose length is at least that of \<open>v\<close>.\<close>

definition HasMultiple_body ::
  "PermissionSet \<Rightarrow> nat \<Rightarrow> nat list \<Rightarrow> bool list \<times> PermissionSet" where
  "HasMultiple_body p k v =
     (let len = (if length v > 1 then length v else 1);
          values = replicate len False
      in if Has p k then
           (let values = values[0 := True] in
            case Child p k of
              (s, p) \<Rightarrow>
                if Len s > 0
                then (fold (\<lambda>(i, idx) values. values[i := Has s idx]) (enumerate 0 v) values, p)
                else (values, p))
         else (values, p))"

text \<open>\<open>HasMultiple(sets...)\<close>: each argument is a map, given as the list of its entries in the
  order the \<open>range\<close> yields them. The result is the map \<open>results\<close> and the receiver afterwards.\<close>

definition HasMultiple ::
  "PermissionSet \<Rightarrow> (nat \<times> nat list) list list
     \<Rightarrow> (nat \<rightharpoonup> bool list) \<times> PermissionSet" where
  "HasMultiple p sets =
     fold (\<lambda>entries st.
             fold (\<lambda>(k, v) (results, p).
                     case HasMultiple_body p k v of
                       (values, p) \<Rightarrow> (results(k \<mapsto> values), p))
                  entries st)
          sets (Map.empty, p)"

text \<open>The keys that a call of \<open>HasMultiple\<close> names, over all its arguments.\<close>

definition queried_keys :: "(nat \<times> nat list) list list \<Rightarrow> nat set" where
  "queried_keys sets = fst ` set (concat sets)"

text \<open>
  Not a function of the source, but a description to compare \<open>HasMultiple\<close> with: what is
  stored under a key \<open>k\<close> with indices \<open>v\<close>, said without the loop. All false when bit \<open>k\<close> is
  not set; true at position 0 and false elsewhere when bit \<open>k\<close> is set and the child at \<open>k\<close> is
  missing or of length 0, or \<open>v\<close> is empty; and otherwise, at each position \<open>i\<close>, whether the
  child has bit \<open>v[i]\<close>.
\<close>

definition HasMultiple_values :: "PermissionSet \<Rightarrow> nat \<Rightarrow> nat list \<Rightarrow> bool list" where
  "HasMultiple_values p k v =
     (if \<not> Has p k then replicate (max 1 (length v)) False
      else case children_lookup p k of
             None \<Rightarrow> True # replicate (max 1 (length v) - 1) False
           | Some c \<Rightarrow>
               if Len c = 0 \<or> v = [] then True # replicate (max 1 (length v) - 1) False
               else map (Has c) v)"

text \<open>The receiver while the loops of \<open>HasMultiple\<close> run: the set \<open>p\<close> on entry, with a child
  added at those keys of \<open>K\<close> whose bit is set.\<close>

definition grown :: "PermissionSet \<Rightarrow> nat set \<Rightarrow> PermissionSet \<Rightarrow> bool" where
  "grown p K q \<longleftrightarrow>
     bits q = bits p \<and> ID q = ID p
     \<and> (\<forall>j. children_lookup q j =
            (if j \<in> K \<and> Has p j
             then Some (case children_lookup p j of None \<Rightarrow> new_PermissionSet | Some c \<Rightarrow> c)
             else children_lookup p j))
     \<and> ((\<forall>j\<in>K. \<not> Has p j) \<longrightarrow> q = p)"

section \<open>The binary codec\<close>

subsection \<open>Variable-length integers\<close>

type_synonym byte = "8 word"

text \<open>
  Modelled from the spec: the variable-length encoding of an integer, which the code takes
  from Go's package \<open>encoding/binary\<close> (\<open>PutUvarint\<close>, \<open>Uvarint\<close>): seven bits to a byte, the
  low bits first, the top bit of a byte saying that another byte follows.
  \<open>uvarint_bytes x\<close> are the bytes that the loop of \<open>binary.PutUvarint\<close> writes for \<open>x\<close>, one to
  ten of them.
\<close>

function uvarint_bytes :: "64 word \<Rightarrow> byte list" where
  "uvarint_bytes x =
     (if x \<ge> 0x80 then (ucast x OR 0x80) # uvarint_bytes (drop_bit 7 x) else [ucast x])"
  by pat_completeness auto
termination
proof (relation "measure unat")
  show "wf (measure unat)" by simp
next
  fix x :: "64 word"
  assume "0x80 \<le> x"
  then have "0 < unat x" by (simp add: word_le_nat_alt)
  then have "unat x div 2 ^ 7 < unat x" by (intro div_less_dividend) auto
  then show "(drop_bit 7 x, x) \<in> measure unat"
    by (simp add: drop_bit_eq_div unat_div)
qed

text \<open>\<open>binary.PutUvarint(buf[off:], x)\<close> on the array that \<open>buf\<close> shares with the slice: the
  buffer afterwards, or \<open>None\<close> for the panic of an index beyond the buffer's length.\<close>

definition PutUvarint :: "byte list \<Rightarrow> nat \<Rightarrow> 64 word \<Rightarrow> byte list option" where
  "PutUvarint buf off x =
     (let enc = uvarint_bytes x in
      if off + length enc \<le> length buf
      then Some (take off buf @ enc @ drop (off + length enc) buf)
      else None)"

text \<open>\<open>binary.Uvarint(buf)\<close>: the value and the number of bytes read; 0 bytes when the buffer
  ends inside the number, a negative count when the number overflows 64 bits. \<open>i\<close> is the
  index of the byte, \<open>x\<close> the value so far and \<open>s\<close> the shift.\<close>

fun Uvarint_loop :: "byte list \<Rightarrow> nat \<Rightarrow> 64 word \<Rightarrow> nat \<Rightarrow> 64 word \<times> int" where
  "Uvarint_loop [] i x s = (0, 0)"
| "Uvarint_loop (b # buf) i x s =
     (if i = 10 then (0, - (int i + 1))
      else if b < 0x80 then
        (if i = 9 \<and> b > 1 then (0, - (int i + 1))
         else (x OR push_bit s (ucast b), int i + 1))
      else Uvarint_loop buf (i + 1) (x OR push_bit s (ucast (b AND 0x7f))) (s + 7))"

definition Uvarint :: "byte list \<Rightarrow> 64 word \<times> int" where
  "Uvarint buf = Uvarint_loop buf 0 0 0"

subsection \<open>The bit vector's own encoding\<close>

text \<open>
  Modelled from the spec: the raw encoded bit vector, the \<open>DATA\<close> of a frame, which the code
  takes from the package \<open>bitset\<close> (\<open>MarshalBinary\<close>, \<open>UnmarshalBinary\<close>).
  \<open>bitset.BitSet\<close> writes its length as a big-endian \<open>uint64\<close> and then its words, each a
  big-endian \<open>uint64\<close>, bit \<open>i\<close> of the vector being bit \<open>i mod 64\<close> of word \<open>i div 64\<close>. Reading
  wants the eight bytes of the length and then all the words of a vector of that length; it
  fails otherwise (\<open>None\<close>), and ignores bytes that follow.
\<close>

definition BigEndian_PutUint64 :: "64 word \<Rightarrow> byte list" where
  "BigEndian_PutUint64 w = map (\<lambda>k. ucast (drop_bit (8 * k) w)) [7, 6, 5, 4, 3, 2, 1, 0]"

definition BigEndian_Uint64 :: "byte list \<Rightarrow> 64 word" where
  "BigEndian_Uint64 bs = fold (\<lambda>b w. push_bit 8 w OR ucast b) bs 0"

definition wordsNeeded :: "nat \<Rightarrow> nat" where
  "wordsNeeded i = (if i > 2 ^ 64 - 1 - 63 then (2 ^ 64 - 1) div 64 else (i + 63) div 64)"

definition BitSet_words :: "BitSet \<Rightarrow> 64 word list" where
  "BitSet_words b =
     map (\<lambda>k. horner_sum of_bool 2 (take 64 (drop (64 * k) b))) [0..<wordsNeeded (length b)]"

definition BitSet_MarshalBinary :: "BitSet \<Rightarrow> byte list" where
  "BitSet_MarshalBinary b =
     BigEndian_PutUint64 (of_nat (length b)) @ concat (map BigEndian_PutUint64 (BitSet_words b))"

definition BitSet_UnmarshalBinary :: "byte list \<Rightarrow> BitSet option" where
  "BitSet_UnmarshalBinary data =
     (if length data < 8 then None
      else
        let len = unat (BigEndian_Uint64 (take 8 data));
            n = wordsNeeded len;
            rest = drop 8 data
        in if length rest < 8 * n then None
           else
             let ws = map (\<lambda>k. BigEndian_Uint64 (take 8 (drop (8 * k) rest))) [0..<n]
             in Some (map (\<lambda>i. bit (ws ! (i div 64)) (i mod 64)) [0..<len]))"

subsection \<open>Slices\<close>

text \<open>
  A \<open>[]byte\<close> is a window on an array: the bytes up to its length, and the bytes of the array
  between its length and its capacity, which a slice expression may reach. \<open>data[lo:hi]\<close>
  panics (\<open>None\<close>) unless \<open>lo \<le> hi \<le> cap(data)\<close>; an index that does not fit an \<open>int\<close> is
  beyond every capacity.
\<close>

type_synonym slice = "byte list \<times> byte list"

definition slice_expr :: "slice \<Rightarrow> nat \<Rightarrow> nat \<Rightarrow> slice option" where
  "slice_expr data lo hi =
     (let array = fst data @ snd data in
      if lo \<le> hi \<and> hi \<le> length array \<and> hi < 2 ^ 63
      then Some (take (hi - lo) (drop lo array), drop hi array)
      else None)"

lemma slice_expr_Some:
  assumes "slice_expr data lo hi = Some s"
  shows "lo \<le> hi" and "hi \<le> length (fst data) + length (snd data)" and "hi < 2 ^ 63"
    and "length (fst s) = hi - lo"
    and "length (fst s) + length (snd s) = length (fst data) + length (snd data) - lo"
proof -
  define array where "array = fst data @ snd data"
  from assms have c: "lo \<le> hi \<and> hi \<le> length array \<and> hi < 2 ^ 63"
    and s: "s = (take (hi - lo) (drop lo array), drop hi array)"
    unfolding slice_expr_def Let_def array_def by (simp_all split: if_splits)
  have l: "length array = length (fst data) + length (snd data)" by (simp add: array_def)
  from c l show "lo \<le> hi" "hi \<le> length (fst data) + length (snd data)" "hi < 2 ^ 63"
    by simp_all
  from c s show "length (fst s) = hi - lo" by (auto simp: min_def)
  have "drop hi array = drop (hi - lo) (drop lo array)" using c by simp
  then have "take (hi - lo) (drop lo array) @ drop hi array = drop lo array"
    by (simp only: append_take_drop_id)
  with s have e: "fst s @ snd s = drop lo (fst data @ snd data)" by (simp add: array_def)
  have "length (fst s @ snd s) = length (drop lo (fst data @ snd data))" by (simp only: e)
  then show "length (fst s) + length (snd s) = length (fst data) + length (snd data) - lo"
    by simp
qed

subsection \<open>MarshalBinary\<close>

lemma children_member_size:
  "children p = Some m \<Longrightarrow> (i, v) \<in> set m \<Longrightarrow> size v < size p"
proof (cases p)
  case (PermissionSet x1 x2 x3)
  assume "children p = Some m" "(i, v) \<in> set m"
  moreover from this have "size v < size_list (size_prod (\<lambda>x. 0) size) m"
    by (intro size_list_estimation[of "(i, v)"]) simp_all
  ultimately show ?thesis using PermissionSet by simp
qed

text \<open>
  \<open>MarshalBinary\<close> returns its bytes, or \<open>None\<close> when \<open>PutUvarint\<close> panics; the bit vector's
  encoder writes to memory and returns no error. Lengths are below \<open>2^63\<close>, so \<open>size\<close> is kept as
  a natural number and becomes a \<open>uint64\<close> where it is written.
\<close>

function MarshalBinary :: "PermissionSet \<Rightarrow> byte list option" where
  "MarshalBinary p =
     (let bytes = BitSet_MarshalBinary (bits p);
          size' = length bytes;
          data = replicate (24 + size') 0
      in case PutUvarint data 0 (ID p) of
           None \<Rightarrow> None
         | Some data \<Rightarrow>
             (case PutUvarint data 8 (of_nat size') of
                None \<Rightarrow> None
              | Some data \<Rightarrow>
                  let data = take 24 data @ bytes in
                  (case (case children p of
                           None \<Rightarrow> Some (size', data)
                         | Some m \<Rightarrow>
                             fold (\<lambda>(i, v) st.
                                     case st of
                                       None \<Rightarrow> None
                                     | Some (size', data) \<Rightarrow>
                                         (case MarshalBinary v of
                                            None \<Rightarrow> None
                                          | Some b \<Rightarrow>
                                              (case PutUvarint (replicate 8 0) 0 (of_nat i) of
                                                 None \<Rightarrow> None
                                               | Some header \<Rightarrow>
                                                   Some (size' + (8 + length b),
                                                         data @ (header @ b)))))
                                  m (Some (size', data)))
                   of None \<Rightarrow> None
                    | Some (size', data) \<Rightarrow> PutUvarint data 16 (of_nat (size' + 24)))))"
  by pat_completeness auto
termination
proof (relation "measure size")
  show "wf (measure size)" by simp
next
  fix p :: PermissionSet and m :: "(nat \<times> PermissionSet) list" and xc i v
  assume "children p = Some m" "xc \<in> set m" "(i, v) = xc"
  then show "(v, p) \<in> measure size"
    using children_member_size[of p m i v] by simp
qed

declare MarshalBinary.simps [simp del]

subsection \<open>UnmarshalBinary\<close>

text \<open>
  A call of \<open>UnmarshalBinary\<close> returns an error or \<open>nil\<close>, or panics; either way it may have
  written to its receiver first. The result is how the call ended and the receiver afterwards.
  \<open>ErrBitSet\<close> is the error of the bit vector's decoder.
\<close>

datatype error = ErrBufTooSmall | ErrBufOveflow | ErrBitSet

datatype outcome = Return "error option" | Panic

definition UnmarshalBinary_measure ::
  "PermissionSet \<times> slice + PermissionSet \<times> slice \<times> 64 word \<Rightarrow> nat" where
  "UnmarshalBinary_measure x =
     (case x of
        Inl (p, data) \<Rightarrow> 2 * (length (fst data) + length (snd data)) + 1
      | Inr (p, data, offset) \<Rightarrow> 2 * (length (fst data) + length (snd data) - unat offset))"

text \<open>\<open>UnmarshalBinary_children\<close> is the loop \<^verbatim>\<open>for maxLen > offset\<close>, entered with the map
  just made.\<close>

function UnmarshalBinary :: "PermissionSet \<Rightarrow> slice \<Rightarrow> outcome \<times> PermissionSet"
  and UnmarshalBinary_children ::
    "PermissionSet \<Rightarrow> slice \<Rightarrow> 64 word \<Rightarrow> outcome \<times> PermissionSet" where
  "UnmarshalBinary p data =
     (let maxLen = length (fst data) in
      if maxLen = 0 then (Return None, p)
      else
        case slice_expr data 0 7 of
          None \<Rightarrow> (Panic, p)
        | Some s \<Rightarrow>
            (case Uvarint (fst s) of
               (ident, read) \<Rightarrow>
                 let p = PermissionSet ident (bits p) (children p) in
                 if read = 0 then (Return (Some ErrBufTooSmall), p)
                 else if read < 0 then (Return (Some ErrBufOveflow), p)
                 else
                   (case slice_expr data 8 15 of
                      None \<Rightarrow> (Panic, p)
                    | Some s \<Rightarrow>
                        (case Uvarint (fst s) of
                           (size', read) \<Rightarrow>
                             if read = 0 then (Return (Some ErrBufTooSmall), p)
                             else if read < 0 then (Return (Some ErrBufOveflow), p)
                             else
                               (case slice_expr data 24 (unat (24 + size')) of
                                  None \<Rightarrow> (Panic, p)
                                | Some s \<Rightarrow>
                                    (case BitSet_UnmarshalBinary (fst s) of
                                       None \<Rightarrow> (Return (Some ErrBitSet), p)
                                     | Some b \<Rightarrow>
                                         let p = PermissionSet (ID p) b (children p);
                                             offset = 24 + size'
                                         in if maxLen > unat offset
                                            then UnmarshalBinary_children
                                                   (PermissionSet (ID p) (bits p) (Some []))
                                                   data offset
                                            else (Return None, p)))))))"
| "UnmarshalBinary_children p data offset =
     (if length (fst data) > unat offset then
        (case slice_expr data (unat offset) (unat (offset + 7)) of
           None \<Rightarrow> (Panic, p)
         | Some s \<Rightarrow>
             (case Uvarint (fst s) of
                (idx, read) \<Rightarrow>
                  if read = 0 then (Return (Some ErrBufTooSmall), p)
                  else if read < 0 then (Return (Some ErrBufOveflow), p)
                  else
                    (case slice_expr data (unat (offset + 24)) (unat (offset + 31)) of
                       None \<Rightarrow> (Panic, p)
                     | Some s \<Rightarrow>
                         (case Uvarint (fst s) of
                            (childSize, read) \<Rightarrow>
                              if read = 0 then (Return (Some ErrBufTooSmall), p)
                              else if read < 0 then (Return (Some ErrBufOveflow), p)
                              else
                                (case slice_expr data (unat (offset + 8))
                                        (unat (offset + 8 + childSize)) of
                                   None \<Rightarrow> (Panic, p)
                                 | Some s \<Rightarrow>
                                     (case UnmarshalBinary new_PermissionSet s of
                                        (Return None, child) \<Rightarrow>
                                          UnmarshalBinary_children
                                            (store_child p (unat idx) child) data
                                            (offset + (8 + childSize))
                                      | (Return (Some err), child) \<Rightarrow> (Return (Some err), p)
                                      | (Panic, child) \<Rightarrow> (Panic, p)))))))
      else (Return None, p))"
  by pat_completeness auto

lemma unat_offset_plus:
  fixes offset w :: "64 word"
  assumes "unat offset < 2 ^ 63" and "unat w < 2 ^ 63"
  shows "unat (offset + w) = unat offset + unat w"
proof -
  have "unat (offset + w) = (unat offset + unat w) mod 2 ^ 64"
    by (simp add: unat_word_ariths)
  also have "\<dots> = unat offset + unat w" using assms by simp
  finally show ?thesis .
qed

lemma UnmarshalBinary_offsets:
  fixes offset childSize :: "64 word"
  assumes s1: "slice_expr data (unat offset) (unat (offset + 7)) = Some s1"
    and s3: "slice_expr data (unat (offset + 8)) (unat (offset + 8 + childSize)) = Some s3"
  shows "unat offset + 8 \<le> length (fst data) + length (snd data)"
    and "length (fst s3) + length (snd s3)
           = length (fst data) + length (snd data) - (unat offset + 8)"
    and "unat offset + 8 \<le> unat (offset + (8 + childSize))"
    and "unat (offset + (8 + childSize)) \<le> length (fst data) + length (snd data)"
proof -
  from slice_expr_Some(1,3)[OF s1] have o: "unat offset < 2 ^ 63" by simp
  then have o8: "unat (offset + 8) = unat offset + 8"
    using unat_offset_plus[of offset 8] by simp
  from slice_expr_Some(1,2)[OF s3] o8
  show "unat offset + 8 \<le> length (fst data) + length (snd data)" by simp
  from slice_expr_Some(5)[OF s3] o8
  show "length (fst s3) + length (snd s3)
          = length (fst data) + length (snd data) - (unat offset + 8)"
    by simp
  have a: "offset + (8 + childSize) = offset + 8 + childSize" by simp
  from slice_expr_Some(1)[OF s3] o8
  show "unat offset + 8 \<le> unat (offset + (8 + childSize))" unfolding a by simp
  from slice_expr_Some(2)[OF s3]
  show "unat (offset + (8 + childSize)) \<le> length (fst data) + length (snd data)"
    unfolding a by simp
qed

termination UnmarshalBinary
proof (relation "measure UnmarshalBinary_measure")
  show "wf (measure UnmarshalBinary_measure)" by simp
next
  fix p :: PermissionSet and data :: slice and offset :: "64 word"
  show "(Inr (p, data, offset), Inl (p', data)) \<in> measure UnmarshalBinary_measure" for p'
    by (simp add: UnmarshalBinary_measure_def)
next
  fix p :: PermissionSet and data s1 s3 :: slice and offset childSize :: "64 word"
  assume "slice_expr data (unat offset) (unat (offset + 7)) = Some s1"
    and "slice_expr data (unat (offset + 8)) (unat (offset + 8 + childSize)) = Some s3"
  from UnmarshalBinary_offsets(1,2)[OF this]
  show "(Inl (new_PermissionSet, s3), Inr (p, data, offset)) \<in> measure UnmarshalBinary_measure"
    by (simp add: UnmarshalBinary_measure_def)
next
  fix p p' :: PermissionSet and data s1 s3 :: slice and offset childSize :: "64 word"
  assume "slice_expr data (unat offset) (unat (offset + 7)) = Some s1"
    and "slice_expr data (unat (offset + 8)) (unat (offset + 8 + childSize)) = Some s3"
  from UnmarshalBinary_offsets(3,4)[OF this]
  show "(Inr (p', data, offset + (8 + childSize)), Inr (p, data, offset))
          \<in> measure UnmarshalBinary_measure"
    by (simp add: UnmarshalBinary_measure_def)
qed

declare UnmarshalBinary.simps [simp del] UnmarshalBinary_children.simps [simp del]

section \<open>The JSON codec\<close>

text \<open>
  Modelled from the spec: the structured text format, which the code takes from Go's package
  \<open>encoding/json\<close>. \<open>MarshalJSON\<close> hands a map to \<open>json.Marshal\<close> and \<open>UnmarshalJSON\<close> reads
  what \<open>json.Unmarshal\<close> makes of a text. The characters of a text are not modelled: a text
  is represented by
  the document it denotes, and a string inside a document by what its characters encode,
  either the base64 form of some bytes (\<open>Base64\<close>) or the text of a document (\<open>Encoded\<close>:
  the value \<open>string(b)\<close> of an encoder's result \<open>b\<close>). A number is a decimal integer below
  \<open>2^64\<close>, as \<open>json.Marshal\<close> writes a \<open>uint64\<close>. The keys of an object are distinct.
  What the two functions of \<open>permissions.go\<close> do with the documents is modelled as written.
\<close>

datatype json = JNumber "64 word" | JString jstring | JObject "(string \<times> json) list"
  and jstring = Base64 "byte list" | Encoded json

subsection \<open>Numbers and keys\<close>

text \<open>
  \<open>json.Unmarshal\<close> into an \<open>interface{}\<close> makes a \<open>float64\<close> of every number: the nearest
  value with a significand of 53 bits, a tie going to the even significand. For a number
  below \<open>2^64\<close> that value is again a natural number, which is what \<open>float64_of_uint64\<close>
  returns. The conversion \<open>uint64(f)\<close> is exact for \<open>f < 2^64\<close>; for \<open>f = 2^64\<close> its result
  depends on the implementation (\<open>None\<close>).
\<close>

fun bit_length :: "nat \<Rightarrow> nat" where
  "bit_length n = (if n = 0 then 0 else Suc (bit_length (n div 2)))"

declare bit_length.simps [simp del]

definition float64_of_uint64 :: "64 word \<Rightarrow> nat" where
  "float64_of_uint64 x =
     (let n = unat x in
      if bit_length n \<le> 53 then n
      else
        let e = bit_length n - 53;
            q = n div 2 ^ e;
            r = n mod 2 ^ e;
            half = 2 ^ (e - 1)
        in (if r > half \<or> (r = half \<and> odd q) then q + 1 else q) * 2 ^ e)"

definition uint64_of_float64 :: "nat \<Rightarrow> 64 word option" where
  "uint64_of_float64 f = (if f < 2 ^ 64 then Some (of_nat f) else None)"

text \<open>\<open>strconv.Itoa\<close>: the decimal digits, after a minus sign for a negative number.\<close>

fun digits :: "nat \<Rightarrow> string" where
  "digits n =
     (if n < 10 then [char_of (48 + n)] else digits (n div 10) @ [char_of (48 + n mod 10)])"

declare digits.simps [simp del]

definition Itoa :: "int \<Rightarrow> string" where
  "Itoa i = (if i < 0 then CHR ''-'' # digits (nat (- i)) else digits (nat i))"

text \<open>\<open>strconv.ParseUint(s, 10, 64)\<close>: the value and whether an error came with it. The value
  is 0 with the error of an empty string or of a character that is no digit, and the largest
  \<open>uint64\<close> with the error of a number out of range.\<close>

fun ParseUint_loop :: "string \<Rightarrow> nat \<Rightarrow> 64 word \<times> bool" where
  "ParseUint_loop [] n = (of_nat n, False)"
| "ParseUint_loop (c # s) n =
     (if 48 \<le> (of_char c :: nat) \<and> (of_char c :: nat) \<le> 57 then
        (let n1 = n * 10 + (of_char c - 48) in
         if n1 \<ge> 2 ^ 64 then (- 1, True) else ParseUint_loop s n1)
      else (0, True))"

definition ParseUint :: "string \<Rightarrow> 64 word \<times> bool" where
  "ParseUint s = (if s = [] then (0, True) else ParseUint_loop s 0)"

subsection \<open>MarshalJSON\<close>

text \<open>
  The document of the map \<open>data\<close>: \<open>ID\<close>, then \<open>bits\<close>, a string holding the text that the bit
  vector's \<open>MarshalJSON\<close> returns (itself a string, the base64 form of the vector's binary
  encoding), then \<open>children\<close> unless the map is \<open>nil\<close>, each child under the decimal form of
  \<open>int(k)\<close> as the string of its own text. No encoder here returns an error.
\<close>

function MarshalJSON :: "PermissionSet \<Rightarrow> json" where
  "MarshalJSON p =
     JObject
       ([(''ID'', JNumber (ID p)),
         (''bits'', JString (Encoded (JString (Base64 (BitSet_MarshalBinary (bits p))))))]
        @ (case children p of
             None \<Rightarrow> []
           | Some m \<Rightarrow>
               [(''children'',
                 JObject (map (\<lambda>(k, v). (Itoa (sint (word_of_nat k :: 64 word)),
                                           JString (Encoded (MarshalJSON v)))) m))]))"
  by pat_completeness auto
termination
proof (relation "measure size")
  show "wf (measure size)" by simp
next
  fix p :: PermissionSet and m :: "(nat \<times> PermissionSet) list" and xc i v
  assume "children p = Some m" "xc \<in> set m" "(i, v) = xc"
  then show "(v, p) \<in> measure size"
    using children_member_size[of p m i v] by simp
qed

declare MarshalJSON.simps [simp del]

subsection \<open>UnmarshalJSON\<close>

lemma json_child_size:
  assumes "map_of intermediate key = Some (JObject childData)"
    and "(k, JString (Encoded d)) \<in> set childData"
  shows "size d < Suc (size_list (size_prod (\<lambda>x. 0) size) intermediate)"
proof -
  from assms(1) have "(key, JObject childData) \<in> set intermediate" by (rule map_of_SomeD)
  then have "size (JObject childData) \<le> size_list (size_prod (\<lambda>x. 0) size) intermediate"
    by (intro size_list_estimation'[of "(key, JObject childData)"]) simp_all
  moreover from assms(2)
  have "size (JString (Encoded d)) \<le> size_list (size_prod (\<lambda>x. 0) size) childData"
    by (intro size_list_estimation'[of "(k, JString (Encoded d))"]) simp_all
  ultimately show ?thesis by simp
qed

text \<open>
  How a call of \<open>UnmarshalJSON\<close> ends: with a set and no error, with an error, with the panic of
  a failed type assertion, or in a way that is left open here (\<open>DecodeOther\<close>: a conversion
  whose result depends on the implementation, a child whose own decoding did not give a
  set, so that \<open>nil\<close> is stored for it, or a string that holds neither of the two things the
  model knows).
\<close>

datatype json_outcome = Decoded PermissionSet | DecodeError | DecodePanic | DecodeOther

function UnmarshalJSON :: "json \<Rightarrow> json_outcome" where
  "UnmarshalJSON (JNumber n) = DecodeError"
| "UnmarshalJSON (JString s) = DecodeError"
| "UnmarshalJSON (JObject intermediate) =
     (case map_of intermediate ''ID'' of
        Some (JNumber n) \<Rightarrow>
          (case uint64_of_float64 (float64_of_uint64 n) of
             None \<Rightarrow> DecodeOther
           | Some ident \<Rightarrow>
               (case map_of intermediate ''bits'' of
                  Some (JString (Encoded (JString (Base64 bytes)))) \<Rightarrow>
                    (case BitSet_UnmarshalBinary bytes of
                       None \<Rightarrow> DecodeError
                     | Some b \<Rightarrow>
                         (case map_of intermediate ''children'' of
                            None \<Rightarrow> Decoded (PermissionSet ident b None)
                          | Some (JObject childData) \<Rightarrow>
                              fold (\<lambda>(k, v) st.
                                      case st of
                                        Decoded s \<Rightarrow>
                                          (case v of
                                             JString (Encoded d) \<Rightarrow>
                                               (case UnmarshalJSON d of
                                                  Decoded child \<Rightarrow>
                                                    Decoded
                                                      (store_child s (unat (fst (ParseUint k)))
                                                         child)
                                                | DecodePanic \<Rightarrow> DecodePanic
                                                | _ \<Rightarrow> DecodeOther)
                                           | JString (Base64 x) \<Rightarrow> DecodeOther
                                           | _ \<Rightarrow> DecodePanic)
                                      | other \<Rightarrow> other)
                                   childData (Decoded (PermissionSet ident b (Some [])))
                          | Some _ \<Rightarrow> DecodePanic))
                | Some (JString _) \<Rightarrow> DecodeOther
                | _ \<Rightarrow> DecodePanic))
      | _ \<Rightarrow> DecodePanic)"
  by pat_completeness auto
termination
  apply (relation "measure size")
   apply simp
  apply simp
  apply (blast intro: json_child_size)
  done

declare UnmarshalJSON.simps [simp del]

section \<open>Earlier revisions\<close>

text \<open>
  The file holds two earlier revisions after the current one. The oldest ends the loop of
  \<open>Walk\<close> with \<^verbatim>\<open>return false\<close>; the middle one calls \<open>p.Set(i)\<close> in the loop of
  \<open>InPlaceIntersection\<close> where the current one asks \<open>p.Has(i)\<close>. Everything above is the
  current revision; the two functions below are the earlier ones, kept to say how they differ.
\<close>

fun Walk_loop_oldest :: "PermissionSet \<Rightarrow> PermissionSet \<Rightarrow> nat list \<Rightarrow> bool" where
  "Walk_loop_oldest p s [] = False"
| "Walk_loop_oldest p s (i # indices) =
     (if BitSet_Test (bits s) i then
        (if children p = None then True
         else (case children_lookup s i of
                 Some next \<Rightarrow> Walk_loop_oldest p next indices
               | None \<Rightarrow> True))
      else False)"

definition Walk_oldest :: "PermissionSet \<Rightarrow> nat list \<Rightarrow> bool" where
  "Walk_oldest p indices = Walk_loop_oldest p p indices"

function InPlaceIntersection_middle :: "PermissionSet \<Rightarrow> PermissionSet \<Rightarrow> PermissionSet" where
  "InPlaceIntersection_middle p other =
     (let p' = fold (\<lambda>i p.
                  let p = Set p [i] in
                  (case children_lookup other i of
                     Some child \<Rightarrow>
                       (case Child p i of
                          (c, p) \<Rightarrow> store_child p i (InPlaceIntersection_middle c child))
                   | None \<Rightarrow> p))
                (BitSet_NextSet_loop (bits other) 0) p
      in PermissionSet (ID p') (BitSet_InPlaceIntersection (bits p') (bits other)) (children p'))"
  by pat_completeness auto
termination
proof (relation "measure (\<lambda>(p, other). size other)")
  show "wf (measure (\<lambda>(p, other). size other))" by simp
next
  fix p other c child :: PermissionSet and i :: nat
  assume "children_lookup other i = Some child"
  then show "((c, child), p, other) \<in> measure (\<lambda>(p, other). size other)"
    by (simp add: children_lookup_size)
qed

declare InPlaceIntersection_middle.simps [simp del]

section \<open>Sets of the scenarios\<close>

text \<open>\<open>p.Set(3, 5)\<close>, then \<open>p.Child(5).Set(2)\<close>.\<close>

definition Walk_scenario :: PermissionSet where
  "Walk_scenario =
     (let p = Set new_PermissionSet [3, 5] in
      case Child p 5 of (c, p) \<Rightarrow> store_child p 5 (Set c [2]))"

text \<open>\<open>p.Set(5)\<close>, then \<open>p.Child(5).Set(1)\<close>: bit 5 set, and a child at 5 whose bits are exactly
  \<open>{1}\<close>.\<close>

definition HasMultiple_scenario :: PermissionSet where
  "HasMultiple_scenario =
     (let p = Set new_PermissionSet [5] in
      case Child p 5 of (c, p) \<Rightarrow> store_child p 5 (Set c [1]))"

section \<open>Facts about bit vectors\<close>

lemma BitSet_Test_Set: "BitSet_Test (BitSet_Set b i) j = (j = i \<or> BitSet_Test b j)"
  by (auto simp: BitSet_Test_def BitSet_Set_def BitSet_extendSetMaybe_def nth_list_update nth_append)

lemma BitSet_Test_fold_Set:
  "BitSet_Test (fold (\<lambda>i b. BitSet_Set b i) idxs b) j = (j \<in> set idxs \<or> BitSet_Test b j)"
  by (induction idxs arbitrary: b) (auto simp: BitSet_Test_Set)







section \<open>Facts about children\<close>

lemma bits_store_child [simp]: "bits (store_child p i c) = bits p"
  by (simp add: store_child_def)

lemma ID_store_child [simp]: "ID (store_child p i c) = ID p"
  by (simp add: store_child_def)

lemma bits_Set [simp]: "bits (Set p idxs) = fold (\<lambda>i b. BitSet_Set b i) idxs (bits p)"
  by (simp add: Set_def)

lemma Child_frame: "Child p i = (c, p') \<Longrightarrow> bits p' = bits p \<and> ID p' = ID p"
  by (auto simp: Child_def Let_def split: option.splits)

lemma fst_Child:
  "fst (Child p k) = (case children_lookup p k of None \<Rightarrow> new_PermissionSet | Some c \<Rightarrow> c)"
  by (simp add: Child_def children_lookup_def Let_def split: option.splits)

lemma children_lookup_snd_Child:
  "children_lookup (snd (Child p k)) j
     = (if j = k then Some (fst (Child p k)) else children_lookup p j)"
  by (auto simp: Child_def children_lookup_def Let_def map_of_append map_add_def
      split: option.splits)

lemma BitSet_Test_Nil: "BitSet_Test [] j = False"
  by (simp add: BitSet_Test_def)

lemma Has_Set_new: "Has (Set new_PermissionSet idxs) j \<longleftrightarrow> j \<in> set idxs"
  by (simp add: Has_def new_PermissionSet_def BitSet_Test_fold_Set BitSet_Test_Nil)




section \<open>Walk\<close>

text \<open>
  C2. \<open>Walk\<close> with no index returns true, and \<open>Walk\<close> with the single index \<open>i\<close> returns what
  \<open>Has(i)\<close> returns whenever the set has no child at \<open>i\<close>.
\<close>

theorem Walk_empty_and_single:
  "Walk p [] \<and> (children_lookup p i = None \<longrightarrow> Walk p [i] = Has p i)"
  by (simp add: Walk_def Has_def)

theorem Walk_empty_and_single_witness:
  "Walk (Set new_PermissionSet [3]) []
   \<and> children_lookup (Set new_PermissionSet [3]) 3 = None
   \<and> Walk (Set new_PermissionSet [3]) [3] = Has (Set new_PermissionSet [3]) 3
   \<and> Has (Set new_PermissionSet [3]) 3"
proof -
  have n: "children_lookup (Set new_PermissionSet [3]) 3 = None"
    by (simp add: children_lookup_def Set_def new_PermissionSet_def)
  have h: "Has (Set new_PermissionSet [3]) 3"
    by (simp add: Has_def BitSet_Test_Set)
  from Walk_empty_and_single [of "Set new_PermissionSet [3]" 3] n h show ?thesis by simp
qed

lemma Walk_scenario_value:
  "Walk_scenario =
     PermissionSet 0 [False, False, False, True, False, True]
       (Some [(5, PermissionSet 0 [False, False, True] None)])"
  by code_simp

text \<open>
  C3. In a set whose root has exactly the bits 3 and 5 and whose child at 5 has exactly bit 2,
  \<open>Walk(5, 2)\<close> is true, \<open>Walk(5, 9)\<close> is false and \<open>Walk(4)\<close> is false.
\<close>

theorem Walk_concrete_scenario:
  assumes "\<forall>i. Has p i = (i = 3 \<or> i = 5)"
    and "children_lookup p 5 = Some c"
    and "\<forall>i. Has c i = (i = 2)"
  shows "Walk p [5, 2] \<and> \<not> Walk p [5, 9] \<and> \<not> Walk p [4]"
proof -
  from assms(2) have nn: "children p \<noteq> None"
    by (auto simp: children_lookup_def split: option.splits)
  from assms(1) have p: "BitSet_Test (bits p) 5" "\<not> BitSet_Test (bits p) 4"
    by (simp_all add: Has_def)
  from assms(3) have c: "BitSet_Test (bits c) 2" "\<not> BitSet_Test (bits c) 9"
    by (simp_all add: Has_def)
  show ?thesis using nn p c assms(2)
    by (simp add: Walk_def split: option.splits)
qed

theorem Walk_concrete_scenario_witness:
  "(\<forall>i. Has Walk_scenario i = (i = 3 \<or> i = 5))
   \<and> children_lookup Walk_scenario 5 = Some (PermissionSet 0 [False, False, True] None)
   \<and> (\<forall>i. Has (PermissionSet 0 [False, False, True] None) i = (i = 2))
   \<and> Walk Walk_scenario [5, 2] \<and> \<not> Walk Walk_scenario [5, 9] \<and> \<not> Walk Walk_scenario [4]"
proof -
  have a: "\<forall>i. Has Walk_scenario i = (i = 3 \<or> i = 5)"
    by (auto simp: Walk_scenario_value Has_def BitSet_Test_def nth_Cons' less_Suc_eq
        numeral_eq_Suc split: if_splits)
  have b: "children_lookup Walk_scenario 5 = Some (PermissionSet 0 [False, False, True] None)"
    by (simp add: Walk_scenario_value children_lookup_def)
  have c: "\<forall>i. Has (PermissionSet 0 [False, False, True] None) i = (i = 2)"
    by (auto simp: Has_def BitSet_Test_def nth_Cons' less_Suc_eq numeral_eq_Suc
        split: if_splits)
  from Walk_concrete_scenario[OF a b c] a b c show ?thesis by blast
qed

section \<open>Intersection and union\<close>













section \<open>HasMultiple\<close>

lemma fold_enumerate_update:
  "n + length v \<le> length vals \<Longrightarrow>
   fold (\<lambda>(i, idx) values. values[i := f idx]) (enumerate n v) vals
     = take n vals @ map f v @ drop (n + length v) vals"
proof (induction v arbitrary: n vals)
  case Nil
  then show ?case by simp
next
  case (Cons x v)
  from Cons.prems have l: "Suc n + length v \<le> length (vals[n := f x])" by simp
  have "fold (\<lambda>(i, idx) values. values[i := f idx]) (enumerate n (x # v)) vals
        = fold (\<lambda>(i, idx) values. values[i := f idx]) (enumerate (Suc n) v) (vals[n := f x])"
    by simp
  also have "\<dots> = take (Suc n) (vals[n := f x]) @ map f v
                     @ drop (Suc n + length v) (vals[n := f x])"
    using Cons.IH[OF l] .
  also have "\<dots> = take n vals @ map f (x # v) @ drop (n + length (x # v)) vals"
    using Cons.prems by (simp add: take_Suc_conv_app_nth)
  finally show ?case .
qed

lemma HasMultiple_body_fst: "fst (HasMultiple_body p k v) = HasMultiple_values p k v"
proof (cases "Has p k")
  case False
  then show ?thesis by (simp add: HasMultiple_body_def HasMultiple_values_def max_def)
next
  case True
  obtain s q where sq: "Child p k = (s, q)" by (cases "Child p k")
  then have s: "s = (case children_lookup p k of None \<Rightarrow> new_PermissionSet | Some c \<Rightarrow> c)"
    using fst_Child[of p k] by simp
  show ?thesis
  proof (cases "Len s = 0 \<or> v = []")
    case True
    then have "fst (HasMultiple_body p k v) = (replicate (max 1 (length v)) False)[0 := True]"
      using \<open>Has p k\<close> sq by (auto simp: HasMultiple_body_def max_def Let_def)
    also have "\<dots> = True # replicate (max 1 (length v) - 1) False"
      by (cases "max 1 (length v)") (simp_all add: max_def split: if_splits)
    also have "\<dots> = HasMultiple_values p k v"
      using \<open>Has p k\<close> True s
      by (auto simp: HasMultiple_values_def Len_def BitSet_Len_def new_PermissionSet_def
          split: option.splits)
    finally show ?thesis .
  next
    case False
    then have v: "length v \<ge> 1" "Len s > 0" by (cases v; simp)+
    have "fst (HasMultiple_body p k v)
          = fold (\<lambda>(i, idx) values. values[i := Has s idx]) (enumerate 0 v)
              ((replicate (length v) False)[0 := True])"
      using \<open>Has p k\<close> sq v by (auto simp: HasMultiple_body_def)
    also have "\<dots> = map (Has s) v"
      by (subst fold_enumerate_update) simp_all
    also have "\<dots> = HasMultiple_values p k v"
      using \<open>Has p k\<close> False s v
      by (auto simp: HasMultiple_values_def Len_def BitSet_Len_def new_PermissionSet_def
          split: option.splits)
    finally show ?thesis .
  qed
qed

lemma HasMultiple_body_snd:
  "snd (HasMultiple_body p k v) = (if Has p k then snd (Child p k) else p)"
  by (auto simp: HasMultiple_body_def Let_def split: prod.splits)

lemma length_HasMultiple_values: "length (HasMultiple_values p k v) = max 1 (length v)"
  by (cases v) (auto simp: HasMultiple_values_def split: option.splits)

lemma fold_fold_concat: "fold (fold f) xss s = fold f (concat xss) s"
  by (induction xss arbitrary: s) simp_all

lemma HasMultiple_flat:
  "HasMultiple p sets =
     fold (\<lambda>(k, v) (results, p).
             case HasMultiple_body p k v of (values, p) \<Rightarrow> (results(k \<mapsto> values), p))
          (concat sets) (Map.empty, p)"
  unfolding HasMultiple_def by (rule fold_fold_concat)

lemma HasMultiple_body_step:
  "(case HasMultiple_body q k v of (values, p) \<Rightarrow> (results(k \<mapsto> values), p))
     = (results(k \<mapsto> HasMultiple_values q k v), if Has q k then snd (Child q k) else q)"
  using HasMultiple_body_fst[of q k v] HasMultiple_body_snd[of q k v]
  by (cases "HasMultiple_body q k v") simp

lemma grown_refl: "grown p {} p"
  by (simp add: grown_def)

lemma grown_values:
  assumes "grown p K q"
  shows "HasMultiple_values q k v = HasMultiple_values p k v"
proof -
  from assms have b: "Has q k = Has p k" by (simp add: grown_def Has_def)
  from assms have c: "children_lookup q k =
            (if k \<in> K \<and> Has p k
             then Some (case children_lookup p k of None \<Rightarrow> new_PermissionSet | Some c \<Rightarrow> c)
             else children_lookup p k)" by (simp add: grown_def)
  show ?thesis
    unfolding HasMultiple_values_def b c
    by (auto simp: Len_def BitSet_Len_def new_PermissionSet_def split: option.splits)
qed

lemma grown_step:
  assumes "grown p K q"
  shows "grown p (insert k K) (if Has q k then snd (Child q k) else q)"
proof (cases "Has p k")
  case False
  with assms have "\<not> Has q k" by (simp add: grown_def Has_def)
  with assms False show ?thesis by (auto simp: grown_def)
next
  case True
  with assms have hq: "Has q k" by (simp add: grown_def Has_def)
  obtain s q' where sq: "Child q k = (s, q')" by (cases "Child q k")
  from Child_frame[OF sq] assms have fr: "bits q' = bits p" "ID q' = ID p"
    by (simp_all add: grown_def)
  have l: "children_lookup q' j = (if j = k then Some (fst (Child q k)) else children_lookup q j)"
    for j
    using children_lookup_snd_Child[of q k j] sq by simp
  have "children_lookup q' j =
            (if j \<in> insert k K \<and> Has p j
             then Some (case children_lookup p j of None \<Rightarrow> new_PermissionSet | Some c \<Rightarrow> c)
             else children_lookup p j)" for j
    using assms True unfolding l fst_Child
    by (auto simp: grown_def split: option.splits)
  with fr True hq sq show ?thesis by (auto simp: grown_def)
qed

lemma HasMultiple_fold:
  assumes "grown p K q"
  shows "fst (fold (\<lambda>(k, v) (results, p).
             case HasMultiple_body p k v of (values, p) \<Rightarrow> (results(k \<mapsto> values), p))
          es (res, q))
         = fold (\<lambda>e results. results(fst e \<mapsto> HasMultiple_values p (fst e) (snd e))) es res
       \<and> grown p (K \<union> fst ` set es)
           (snd (fold (\<lambda>(k, v) (results, p).
             case HasMultiple_body p k v of (values, p) \<Rightarrow> (results(k \<mapsto> values), p))
          es (res, q)))"
  using assms
proof (induction es arbitrary: res q K)
  case Nil
  then show ?case by simp
next
  case (Cons e es)
  obtain k v where e: "e = (k, v)" by (cases e)
  let ?f = "\<lambda>(k, v) (results, p).
             case HasMultiple_body p k v of (values, p) \<Rightarrow> (results(k \<mapsto> values), p)"
  let ?g = "\<lambda>e results. results(fst e \<mapsto> HasMultiple_values p (fst e) (snd e))"
  have g: "grown p (insert k K) (if Has q k then snd (Child q k) else q)"
    using grown_step[OF Cons.prems] .
  have u: "insert k K \<union> fst ` set es = K \<union> fst ` set (e # es)" using e by auto
  have st: "?f e (res, q) = (?g e res, if Has q k then snd (Child q k) else q)"
    unfolding e by (simp only: prod.case HasMultiple_body_step grown_values[OF Cons.prems]
        fst_conv snd_conv)
  have "fold ?f (e # es) (res, q) = fold ?f es (?f e (res, q))" by simp
  also have "\<dots> = fold ?f es (?g e res, if Has q k then snd (Child q k) else q)"
    by (simp only: st)
  finally have f: "fold ?f (e # es) (res, q)
      = fold ?f es (?g e res, if Has q k then snd (Child q k) else q)" .
  have r: "fold ?g (e # es) res = fold ?g es (?g e res)" by simp
  show ?case
    unfolding f r u[symmetric] using Cons.IH[OF g, of "?g e res"] .
qed

lemma HasMultiple_result:
  "fst (HasMultiple p sets)
     = fold (\<lambda>e results. results(fst e \<mapsto> HasMultiple_values p (fst e) (snd e)))
         (concat sets) Map.empty"
  using HasMultiple_fold[OF grown_refl, where es="concat sets" and res=Map.empty]
  by (simp only: HasMultiple_flat)

lemma HasMultiple_receiver: "grown p (queried_keys sets) (snd (HasMultiple p sets))"
  using HasMultiple_fold[OF grown_refl, where es="concat sets" and res=Map.empty and p=p]
  by (simp only: HasMultiple_flat queried_keys_def Un_empty_left)

lemma HasMultiple_scenario_value:
  "HasMultiple_scenario =
     PermissionSet 0 [False, False, False, False, False, True]
       (Some [(5, PermissionSet 0 [False, True] None)])"
  by code_simp

lemma HasMultiple_scenario_result:
  "fst (HasMultiple HasMultiple_scenario [[(5, [1, 2])]]) = [5 \<mapsto> [True, False]]"
  unfolding HasMultiple_result
  by (simp add: HasMultiple_values_def HasMultiple_scenario_value Has_def BitSet_Test_def
      children_lookup_def Len_def BitSet_Len_def)

text \<open>
  C6, as the code has it. On the set with bit 5 and a child at 5 whose bits are exactly \<open>{1}\<close>,
  \<open>HasMultiple\<close> of the one batch \<open>{5: [1, 2]}\<close> returns \<open>{5: [true, false]}\<close>. In general the
  result holds, for every key named, the values of the last entry that names it, and the
  values for a key \<open>k\<close> with indices \<open>v\<close> are \<open>max(1, len(v))\<close> many: all false when bit \<open>k\<close> is
  not set on the root; true at position 0 and false after it when bit \<open>k\<close> is set and the child
  at \<open>k\<close> is missing or has length 0, or \<open>v\<close> is empty; and otherwise position \<open>i\<close> tells whether
  the child at \<open>k\<close> has bit \<open>v[i]\<close>, from position 0 on.
\<close>

theorem HasMultiple_values_by_position:
  "fst (HasMultiple HasMultiple_scenario [[(5, [1, 2])]]) = [5 \<mapsto> [True, False]]
   \<and> fst (HasMultiple p sets)
       = fold (\<lambda>e results. results(fst e \<mapsto> HasMultiple_values p (fst e) (snd e)))
           (concat sets) Map.empty
   \<and> length (HasMultiple_values p k v) = max 1 (length v)"
  using HasMultiple_scenario_result HasMultiple_result[of p sets] length_HasMultiple_values[of p k v]
  by (simp only: simp_thms)

text \<open>The claim as the specification words it fails on its own example: the sequence has two
  entries, the second of them false.\<close>

theorem HasMultiple_example_counterexample:
  "fst (HasMultiple HasMultiple_scenario [[(5, [1, 2])]]) 5 = Some [True, False]
   \<and> fst (HasMultiple HasMultiple_scenario [[(5, [1, 2])]]) \<noteq> [5 \<mapsto> [True, True, False]]"
proof -
  have a: "fst (HasMultiple HasMultiple_scenario [[(5, [1, 2])]]) 5 = Some [True, False]"
    unfolding HasMultiple_scenario_result by simp
  have "fst (HasMultiple HasMultiple_scenario [[(5, [1, 2])]]) 5 \<noteq> [5 \<mapsto> [True, True, False]] 5"
    unfolding a by simp
  then have "fst (HasMultiple HasMultiple_scenario [[(5, [1, 2])]]) \<noteq> [5 \<mapsto> [True, True, False]]"
    by metis
  with a show ?thesis by simp
qed

text \<open>
  C10. \<open>HasMultiple\<close> writes to its receiver: afterwards every key that was named and whose
  bit is set on the root has a child (the one it had, or a new empty one), every other key has
  what it had, the bits and the ID are the same, and when no named key has its bit set the
  receiver is untouched.
\<close>

theorem HasMultiple_creates_children:
  "bits (snd (HasMultiple p sets)) = bits p
   \<and> ID (snd (HasMultiple p sets)) = ID p
   \<and> (\<forall>k. children_lookup (snd (HasMultiple p sets)) k =
            (if k \<in> queried_keys sets \<and> Has p k
             then Some (case children_lookup p k of None \<Rightarrow> new_PermissionSet | Some c \<Rightarrow> c)
             else children_lookup p k))
   \<and> ((\<forall>k\<in>queried_keys sets. \<not> Has p k) \<longrightarrow> snd (HasMultiple p sets) = p)"
  using HasMultiple_receiver[of p sets] unfolding grown_def by blast

theorem HasMultiple_creates_children_witness:
  "children_lookup (Set new_PermissionSet [5]) 5 = None
   \<and> children_lookup (snd (HasMultiple (Set new_PermissionSet [5]) [[(5, [1, 2]), (4, [])]])) 5
       = Some new_PermissionSet
   \<and> children_lookup (snd (HasMultiple (Set new_PermissionSet [5]) [[(5, [1, 2]), (4, [])]])) 4
       = None
   \<and> snd (HasMultiple (Set new_PermissionSet [4]) [[(5, [1, 2])]]) = Set new_PermissionSet [4]"
proof -
  have q: "queried_keys [[(5, [1, 2]), (4, [])]] = {5, 4}" "queried_keys [[(5, [1, 2])]] = {5}"
    by (simp_all add: queried_keys_def)
  have h: "Has (Set new_PermissionSet [5]) 5" "\<not> Has (Set new_PermissionSet [5]) 4"
    "\<not> Has (Set new_PermissionSet [4]) 5"
    by (simp_all add: Has_Set_new)
  have c: "children_lookup (Set new_PermissionSet [5]) k = None" for k
    by (simp add: children_lookup_def Set_def new_PermissionSet_def)
  from HasMultiple_creates_children[of "Set new_PermissionSet [5]" "[[(5, [1, 2]), (4, [])]]"]
    HasMultiple_creates_children[of "Set new_PermissionSet [4]" "[[(5, [1, 2])]]"]
  show ?thesis unfolding q using h c by simp
qed

section \<open>The binary codec\<close>

text \<open>A tree of three levels with small numbers goes round: decoding its encoding into a new
  set returns \<open>nil\<close> and the tree.\<close>

lemma MarshalBinary_UnmarshalBinary_small_tree:
  "case MarshalBinary
          (PermissionSet 7 [False, True, True]
             (Some [(5, PermissionSet 9 [True] None),
                    (300, PermissionSet 1 [] (Some [(0, PermissionSet 2 [True] None)]))])) of
     None \<Rightarrow> False
   | Some bytes \<Rightarrow>
       UnmarshalBinary new_PermissionSet (bytes, [])
         = (Return None,
            PermissionSet 7 [False, True, True]
              (Some [(5, PermissionSet 9 [True] None),
                     (300, PermissionSet 1 [] (Some [(0, PermissionSet 2 [True] None)]))]))"
  by code_simp

text \<open>
  C1, at a set the code does not take round: the set with ID \<open>2^49\<close>, no bits and no children.
  \<open>MarshalBinary\<close> writes the ID in eight bytes; \<open>UnmarshalBinary\<close> reads the first seven only,
  finds no end of the number, and returns \<open>ErrBufTooSmall\<close> with the ID set to 0.
\<close>

theorem MarshalBinary_UnmarshalBinary_large_ID:
  "MarshalBinary (PermissionSet (2 ^ 49) [] None)
     = Some ([0x80, 0x80, 0x80, 0x80, 0x80, 0x80, 0x80, 1, 8] @ replicate 7 0 @ [32]
             @ replicate 15 0)
   \<and> UnmarshalBinary new_PermissionSet
         ([0x80, 0x80, 0x80, 0x80, 0x80, 0x80, 0x80, 1, 8] @ replicate 7 0 @ [32]
          @ replicate 15 0, [])
       = (Return (Some ErrBufTooSmall), PermissionSet 0 [] None)"
  by code_simp

text \<open>
  C8, at inputs the code does not answer as claimed. The one byte \<open>0x01\<close> in a slice of
  capacity 1: the slice expression \<open>data[:7]\<close> panics. Eleven bytes \<open>0xff\<close>, a number beyond 64
  bits: the seven bytes read hold no end of a number, and the error is \<open>ErrBufTooSmall\<close>.
\<close>

theorem UnmarshalBinary_short_input_panics:
  "UnmarshalBinary new_PermissionSet ([1], []) = (Panic, new_PermissionSet)
   \<and> fst (UnmarshalBinary new_PermissionSet (replicate 11 0xff, []))
       = Return (Some ErrBufTooSmall)"
  by code_simp

text \<open>
  C9. \<open>UnmarshalBinary\<close> of an input of length 0 returns \<open>nil\<close> and leaves its receiver as it
  was, whatever the receiver and whatever lies beyond the slice's length.
\<close>

theorem UnmarshalBinary_empty_input:
  "UnmarshalBinary p ([], spare) = (Return None, p)"
  by (simp add: UnmarshalBinary.simps)

section \<open>The JSON codec\<close>

text \<open>The same tree goes round the JSON codec.\<close>

lemma MarshalJSON_UnmarshalJSON_small_tree:
  "UnmarshalJSON
     (MarshalJSON
        (PermissionSet 7 [False, True, True]
           (Some [(5, PermissionSet 9 [True] None),
                  (300, PermissionSet 1 [] (Some [(0, PermissionSet 2 [True] None)]))])))
   = Decoded
       (PermissionSet 7 [False, True, True]
          (Some [(5, PermissionSet 9 [True] None),
                 (300, PermissionSet 1 [] (Some [(0, PermissionSet 2 [True] None)]))]))"
  by code_simp

text \<open>
  C7, at a set the code does not take round: the set with ID \<open>2^53 + 1\<close>, no bits and no
  children. Its document has no \<open>children\<close> field; decoding it makes a \<open>float64\<close> of the ID
  and returns the set with ID \<open>2^53\<close>.
\<close>

theorem MarshalJSON_UnmarshalJSON_large_ID:
  "MarshalJSON (PermissionSet 9007199254740993 [] None)
     = JObject [(''ID'', JNumber 9007199254740993),
                (''bits'', JString (Encoded (JString (Base64 (replicate 8 0)))))]
   \<and> UnmarshalJSON (MarshalJSON (PermissionSet 9007199254740993 [] None))
       = Decoded (PermissionSet 9007199254740992 [] None)"
  by code_simp

section \<open>The earlier revisions\<close>

text \<open>In the oldest revision \<open>Walk\<close> with no index is false, and in the middle one an
  intersection gives its receiver a bit that only the argument had.\<close>

lemma Walk_oldest_empty: "\<not> Walk_oldest p []"
  by (simp add: Walk_oldest_def)

lemma InPlaceIntersection_middle_adds:
  "\<not> Has new_PermissionSet 1
   \<and> Has (InPlaceIntersection_middle new_PermissionSet (Set new_PermissionSet [1])) 1"
  by code_simp

end
